theory Spec2Isabelle
  imports Main
begin

section \<open>smallsh: a shallow embedding of \<open>main.c\<close>\<close>

text \<open>
  Conventions of the embedding.
  \<^item> A C string is the list of its characters before the terminating NUL, so
    \<open>word[i] != '\0'\<close> is \<open>i < length word\<close> and reading \<open>word[length word]\<close> gives NUL.
  \<^item> A fixed-size C array is a list of that size. A store to an index outside the
    array is undefined behaviour in C; the embedding makes it a value of type \<open>fault\<close>
    and stops there.
  \<^item> Heap buffers for temporaries (\<open>malloc\<close>, \<open>realloc\<close>, \<open>calloc\<close>) are not
    modelled; only the characters they hold are. In particular \<open>stringReplace\<close>
    allocates \<open>l\<close> bytes for the \<open>l\<close> digits of the process id and their terminating
    NUL, and the embedding does not follow that byte.
\<close>

subsection \<open>Constants and data\<close>

definition LINELENGTH :: nat where
  "LINELENGTH = 2048"

definition ARGLENGTH :: nat where
  "ARGLENGTH = 513"

definition NUL :: char where
  "NUL = CHR 0x00"

definition NEWLINE :: char where
  "NEWLINE = CHR 0x0A"

datatype fault =
    ArgsOverrun nat     \<comment> \<open>store to \<open>newCmd->args[i]\<close> with \<open>i\<close> outside the array\<close>
  | QueueOverrun nat    \<comment> \<open>store to \<open>msgQueue[i]\<close> with \<open>i\<close> outside the array\<close>

record command =
  args :: "string option list"
  inputFile :: "string option"
  outputFile :: "string option"
  isBackground :: bool

subsection \<open>\<open>printf("%d")\<close>\<close>

text \<open>The decimal form that \<open>snprintf\<close> and \<open>sprintf\<close> produce for \<open>%d\<close>.\<close>

definition digit_char :: "nat \<Rightarrow> char" where
  "digit_char d = ''0123456789'' ! (d mod 10)"

function digits :: "nat \<Rightarrow> string" where
  "digits n = (if n < 10 then [digit_char n] else digits (n div 10) @ [digit_char (n mod 10)])"
  by pat_completeness auto
termination
  by (relation "measure id") auto

declare digits.simps [simp del]

definition decimal :: "int \<Rightarrow> string" where
  "decimal i = (if i < 0 then CHR ''-'' # digits (nat (- i)) else digits (nat i))"

subsection \<open>\<open>isValidLine\<close>\<close>

definition isValidLine :: "char \<Rightarrow> bool" where
  "isValidLine firstChar =
     (if firstChar = CHR ''#'' then False
      else if firstChar = NEWLINE then False
      else True)"

subsection \<open>\<open>stringReplace\<close>\<close>

definition char_at :: "string \<Rightarrow> nat \<Rightarrow> char" where
  "char_at word i = (if i < length word then word ! i else NUL)"

text \<open>
  The inner loop that appends \<open>subLength\<close> characters of \<open>currentChar\<close> to \<open>newWord\<close>.
  Its guard \<open>currentChar[c] != '\n' || currentChar[c] != '\0'\<close> is kept as written.
\<close>

definition append_chars :: "string \<Rightarrow> string \<Rightarrow> nat \<Rightarrow> string" where
  "append_chars newWord currentChar subLength =
     newWord @ filter (\<lambda>ch. ch \<noteq> NEWLINE \<or> ch \<noteq> NUL) (take subLength currentChar)"

function replace_loop :: "string \<Rightarrow> string \<Rightarrow> nat \<Rightarrow> string \<Rightarrow> string" where
  "replace_loop replaceString word i newWord =
     (if i < length word then
        (if word ! i = CHR ''$'' \<and> char_at word (i + 1) = CHR ''$''
         then replace_loop replaceString word (i + 2)
                (append_chars newWord replaceString (length replaceString))
         else replace_loop replaceString word (i + 1)
                (append_chars newWord [word ! i] 1))
      else newWord)"
  by pat_completeness auto
termination
  by (relation "measure (\<lambda>(replaceString, word, i, newWord). length word - i)") auto

declare replace_loop.simps [simp del]

definition stringReplace :: "int \<Rightarrow> string \<Rightarrow> string" where
  "stringReplace pid word = replace_loop (decimal pid) word 0 []"

text \<open>Whether a string contains two adjacent \<open>$\<close> characters.\<close>

fun contains_marker :: "string \<Rightarrow> bool" where
  "contains_marker (a # b # cs) = ((a = CHR ''$'' \<and> b = CHR ''$'') \<or> contains_marker (b # cs))"
| "contains_marker cs = False"

text \<open>The scan of \<open>stringReplace\<close> as a recursion on the remaining characters.\<close>

fun expand :: "string \<Rightarrow> string \<Rightarrow> string" where
  "expand rs (a # b # cs) =
     (if a = CHR ''$'' \<and> b = CHR ''$'' then rs @ expand rs cs else a # expand rs (b # cs))"
| "expand rs cs = cs"

subsection \<open>\<open>strtok_r\<close> with the delimiter string of \<open>processInput\<close>\<close>

text \<open>
  \<open>processInput\<close> always passes the delimiters \<open>"  \n"\<close>: space and newline.
  \<open>strtok_r\<close> takes the text at the save pointer (the line itself on the first call),
  skips leading delimiters and returns the next token, if any, with the new save pointer:
  the text after the delimiter that ended the token.
\<close>

definition is_delim :: "char \<Rightarrow> bool" where
  "is_delim c = (c = CHR '' '' \<or> c = NEWLINE)"

definition strtok_r :: "string \<Rightarrow> string option \<times> string" where
  "strtok_r s =
     (let s1 = dropWhile is_delim s in
      if s1 = [] then (None, [])
      else (Some (takeWhile (\<lambda>c. \<not> is_delim c) s1),
            drop 1 (dropWhile (\<lambda>c. \<not> is_delim c) s1)))"

subsection \<open>\<open>processInput\<close>\<close>

definition new_command :: command where
  "new_command =
     \<lparr>args = replicate ARGLENGTH None, inputFile = None, outputFile = None,
      isBackground = False\<rparr>"

definition clear_background :: "command \<Rightarrow> command" where
  "clear_background newCmd =
     (if isBackground newCmd then newCmd\<lparr>isBackground := False\<rparr> else newCmd)"

text \<open>
  The \<open>while(token != NULL)\<close> loop. Its state is the current token, the save pointer,
  the descriptor under construction and \<open>argPosition\<close>.
\<close>

function token_loop ::
  "int \<Rightarrow> string option \<Rightarrow> string \<Rightarrow> command \<Rightarrow> nat \<Rightarrow> fault + command" where
  "token_loop pid None saveptr newCmd argPosition = Inr newCmd"
| "token_loop pid (Some token) saveptr newCmd argPosition =
     (if args (clear_background newCmd) ! 0 = None then
        (case strtok_r saveptr of (next_token, saveptr1) \<Rightarrow>
           token_loop pid next_token saveptr1
             ((clear_background newCmd)
                \<lparr>args := (args (clear_background newCmd))[0 := Some (stringReplace pid token)]\<rparr>)
             argPosition)
      else if token = ''<'' then
        (case strtok_r saveptr of (operand, saveptr1) \<Rightarrow>
           (case strtok_r saveptr1 of (next_token, saveptr2) \<Rightarrow>
              token_loop pid next_token saveptr2
                (case operand of
                   None \<Rightarrow> clear_background newCmd
                 | Some path \<Rightarrow>
                     (clear_background newCmd)\<lparr>inputFile := Some (stringReplace pid path)\<rparr>)
                argPosition))
      else if token = ''>'' then
        (case strtok_r saveptr of (operand, saveptr1) \<Rightarrow>
           (case strtok_r saveptr1 of (next_token, saveptr2) \<Rightarrow>
              token_loop pid next_token saveptr2
                (case operand of
                   None \<Rightarrow> clear_background newCmd
                 | Some path \<Rightarrow>
                     (clear_background newCmd)\<lparr>outputFile := Some (stringReplace pid path)\<rparr>)
                argPosition))
      else if token = ''&'' then
        (case strtok_r saveptr of (next_token, saveptr1) \<Rightarrow>
           token_loop pid next_token saveptr1
             ((clear_background newCmd)\<lparr>isBackground := True\<rparr>) argPosition)
      else if argPosition \<le> ARGLENGTH then
        (if argPosition < length (args (clear_background newCmd)) then
           (case strtok_r saveptr of (next_token, saveptr1) \<Rightarrow>
              token_loop pid next_token saveptr1
                ((clear_background newCmd)
                   \<lparr>args := (args (clear_background newCmd))
                               [argPosition := Some (stringReplace pid token)]\<rparr>)
                (argPosition + 1))
         else Inl (ArgsOverrun argPosition))
      else
        (case strtok_r saveptr of (next_token, saveptr1) \<Rightarrow>
           token_loop pid next_token saveptr1 (clear_background newCmd) argPosition))"
  by pat_completeness auto
termination
proof -
  have shorter: "length r < length s" if "strtok_r s = (Some t, r)" for s t r
  proof -
    let ?s1 = "dropWhile is_delim s"
    let ?d = "dropWhile (\<lambda>c. \<not> is_delim c) ?s1"
    from that have ne: "?s1 \<noteq> []" and r: "r = drop 1 ?d"
      by (auto simp: strtok_r_def Let_def split: if_splits)
    have "length ?d \<le> length ?s1"
      by (rule length_dropWhile_le)
    moreover have "length ?s1 \<le> length s"
      by (rule length_dropWhile_le)
    moreover have "0 < length ?s1"
      using ne by simp
    moreover have "length r = length ?d - 1"
      unfolding r by simp
    ultimately show ?thesis
      by linarith
  qed
  have not_longer: "length r \<le> length s" if "strtok_r s = (t, r)" for s t r
  proof (cases t)
    case None
    with that show ?thesis
      by (auto simp: strtok_r_def Let_def split: if_splits)
  next
    case (Some a)
    with that show ?thesis
      using shorter [of s a r] by simp
  qed
  have twice: "length r < length s"
    if "strtok_r s = (x, y)" and "strtok_r y = (Some t, r)" for s x y t r
    using not_longer [OF that(1)] shorter [OF that(2)] by linarith
  show ?thesis
    by (relation "measure (\<lambda>(pid, token, saveptr, newCmd, argPosition).
                    case token of None \<Rightarrow> 0 | Some t \<Rightarrow> Suc (length saveptr))")
       (auto split: option.splits dest: shorter twice
          dest!: sym [of "(_, _)" "strtok_r _"])
qed

declare token_loop.simps [simp del]

definition null_device :: string where
  "null_device = ''/dev/null''"

definition foreground_only :: "bool \<Rightarrow> command \<Rightarrow> command" where
  "foreground_only fg newCmd = (if fg then newCmd\<lparr>isBackground := False\<rparr> else newCmd)"

definition default_paths :: "command \<Rightarrow> command" where
  "default_paths newCmd =
     (if isBackground newCmd then
        (let c1 = (if inputFile newCmd = None
                   then newCmd\<lparr>inputFile := Some null_device\<rparr> else newCmd)
         in (if outputFile c1 = None then c1\<lparr>outputFile := Some null_device\<rparr> else c1))
      else newCmd)"

text \<open>
  \<open>processInput\<close>; \<open>fg\<close> is the value of the global \<open>fgMode\<close> when the function
  reads it, and \<open>pid\<close> is what \<open>getpid()\<close> returns. \<open>Inr None\<close> is the NULL result.
\<close>

definition parse_line :: "int \<Rightarrow> string \<Rightarrow> fault + command option" where
  "parse_line pid line =
     (case strtok_r line of
        (None, saveptr) \<Rightarrow> Inr None
      | (Some token, saveptr) \<Rightarrow>
          (case token_loop pid (Some token) saveptr new_command 1 of
             Inl f \<Rightarrow> Inl f
           | Inr newCmd \<Rightarrow> Inr (Some newCmd)))"

definition processInput :: "bool \<Rightarrow> int \<Rightarrow> string \<Rightarrow> fault + command option" where
  "processInput fg pid line =
     (case parse_line pid line of
        Inl f \<Rightarrow> Inl f
      | Inr None \<Rightarrow> Inr None
      | Inr (Some newCmd) \<Rightarrow> Inr (Some (default_paths (foreground_only fg newCmd))))"

subsection \<open>The token sequence of a line\<close>

text \<open>
  The tokens of a line: its maximal runs of characters that are not delimiters, from
  left to right. \<open>tokens_aux\<close> carries the run read so far.
\<close>

fun tokens_aux :: "string \<Rightarrow> string \<Rightarrow> string list" where
  "tokens_aux cur [] = (if cur = [] then [] else [cur])"
| "tokens_aux cur (c # cs) =
     (if is_delim c then (if cur = [] then tokens_aux [] cs else cur # tokens_aux [] cs)
      else tokens_aux (cur @ [c]) cs)"

definition tokens :: "string \<Rightarrow> string list" where
  "tokens line = tokens_aux [] line"

text \<open>
  The loop of \<open>processInput\<close> run on a list of tokens instead of on \<open>strtok_r\<close>'s
  save pointer; \<open>token_loop_consume\<close> below shows that \<open>token_loop\<close> computes it on
  the tokens of the line.
\<close>

fun consume :: "int \<Rightarrow> string list \<Rightarrow> command \<Rightarrow> nat \<Rightarrow> fault + command" where
  "consume pid [] newCmd argPosition = Inr newCmd"
| "consume pid (token # rest) newCmd argPosition =
     (if args (clear_background newCmd) ! 0 = None then
        consume pid rest
          ((clear_background newCmd)
             \<lparr>args := (args (clear_background newCmd))[0 := Some (stringReplace pid token)]\<rparr>)
          argPosition
      else if token = ''<'' then
        (case rest of
           [] \<Rightarrow> Inr (clear_background newCmd)
         | path # rest' \<Rightarrow>
             consume pid rest'
               ((clear_background newCmd)\<lparr>inputFile := Some (stringReplace pid path)\<rparr>)
               argPosition)
      else if token = ''>'' then
        (case rest of
           [] \<Rightarrow> Inr (clear_background newCmd)
         | path # rest' \<Rightarrow>
             consume pid rest'
               ((clear_background newCmd)\<lparr>outputFile := Some (stringReplace pid path)\<rparr>)
               argPosition)
      else if token = ''&'' then
        consume pid rest ((clear_background newCmd)\<lparr>isBackground := True\<rparr>) argPosition
      else if argPosition \<le> ARGLENGTH then
        (if argPosition < length (args (clear_background newCmd)) then
           consume pid rest
             ((clear_background newCmd)
                \<lparr>args := (args (clear_background newCmd))
                            [argPosition := Some (stringReplace pid token)]\<rparr>)
             (argPosition + 1)
         else Inl (ArgsOverrun argPosition))
      else consume pid rest (clear_background newCmd) argPosition)"

declare consume.simps(2) [simp del]

text \<open>The tokens still to come when the loop holds \<open>token\<close> and the save pointer.\<close>

definition pending :: "string option \<Rightarrow> string \<Rightarrow> string list" where
  "pending token saveptr = (case token of None \<Rightarrow> [] | Some t \<Rightarrow> t # tokens saveptr)"

definition is_redirect :: "string \<Rightarrow> bool" where
  "is_redirect token = (token = ''<'' \<or> token = ''>'')"

subsection \<open>Job table and notification queue\<close>

record shell =
  msgQueue :: "string option list"
  queuePosition :: nat
  children :: "int list"
  fgMode :: bool

text \<open>The globals as the C runtime initialises them: every slot zero.\<close>

definition shell_init :: shell where
  "shell_init =
     \<lparr>msgQueue = replicate 50 None, queuePosition = 0, children = replicate 200 0,
      fgMode = False\<rparr>"

datatype event =
    Write string        \<comment> \<open>\<open>write(STDOUT_FILENO, ...)\<close> of these bytes\<close>
  | Kill int int        \<comment> \<open>\<open>kill(pid, sig)\<close>\<close>
  | Exit int            \<comment> \<open>\<open>_exit(code)\<close>\<close>

definition SIGTERM :: int where
  "SIGTERM = 15"

definition pushMessageQueue :: "string \<Rightarrow> shell \<Rightarrow> fault + shell" where
  "pushMessageQueue line s =
     (if queuePosition s < length (msgQueue s) then
        Inr (s\<lparr>msgQueue := (msgQueue s)[queuePosition s := Some line],
               queuePosition := queuePosition s + 1\<rparr>)
      else Inl (QueueOverrun (queuePosition s)))"

text \<open>
  The loop of \<open>clearMessageQueue\<close>: every slot that holds a message is written to
  standard output, \<open>strlen + 1\<close> bytes of it, and emptied.
\<close>

function clear_loop ::
  "nat \<Rightarrow> string option list \<Rightarrow> event list \<Rightarrow> string option list \<times> event list" where
  "clear_loop i queue out =
     (if i < length queue then
        (case queue ! i of
           None \<Rightarrow> clear_loop (i + 1) queue out
         | Some message \<Rightarrow>
             clear_loop (i + 1) (queue[i := None]) (out @ [Write (message @ [NUL])]))
      else (queue, out))"
  by pat_completeness auto
termination
  by (relation "measure (\<lambda>(i, queue, out). length queue - i)") auto

declare clear_loop.simps [simp del]

definition clearMessageQueue :: "shell \<Rightarrow> event list \<times> shell" where
  "clearMessageQueue s =
     (case clear_loop 0 (msgQueue s) [] of
        (queue, out) \<Rightarrow> (out, s\<lparr>msgQueue := queue, queuePosition := 0\<rparr>))"

text \<open>The loop of \<open>exitShell\<close> over the job table.\<close>

function kill_loop :: "nat \<Rightarrow> int list \<Rightarrow> event list \<Rightarrow> int list \<times> event list" where
  "kill_loop i table out =
     (if i < length table then
        (if table ! i \<noteq> 0
         then kill_loop (i + 1) (table[i := 0]) (out @ [Kill (table ! i) SIGTERM])
         else kill_loop (i + 1) table out)
      else (table, out))"
  by pat_completeness auto
termination
  by (relation "measure (\<lambda>(i, table, out). length table - i)") auto

declare kill_loop.simps [simp del]

text \<open>\<open>exitShell\<close> does not return: its value is everything the shell does until it ends.\<close>

definition exitShell :: "shell \<Rightarrow> event list" where
  "exitShell s =
     (case clearMessageQueue s of
        (out1, s1) \<Rightarrow>
          (case kill_loop 0 (children s1) [] of
             (table, out2) \<Rightarrow> out1 @ out2 @ [Exit 3]))"

subsection \<open>\<open>handleSIGCHLD\<close>\<close>

text \<open>
  What \<open>waitpid\<close> stores in \<open>status\<close> for a terminated child, as the macros
  \<open>WIFEXITED\<close>, \<open>WEXITSTATUS\<close> and \<open>WTERMSIG\<close> read it.
\<close>

datatype wstatus = Exited int | Signaled int

definition reap_message :: "int \<Rightarrow> wstatus \<Rightarrow> string" where
  "reap_message childPid status =
     (case status of
        Exited code \<Rightarrow>
          ''background pid '' @ decimal childPid @ '' is done: exit value '' @ decimal code
            @ [NEWLINE]
      | Signaled signal \<Rightarrow>
          ''background pid '' @ decimal childPid @ '' is done: terminated by signal ''
            @ decimal signal @ [NEWLINE])"

text \<open>The loop that removes the child from the job table; it stops at the first match.\<close>

function remove_child :: "int \<Rightarrow> nat \<Rightarrow> int list \<Rightarrow> int list" where
  "remove_child childPid i table =
     (if i < length table then
        (if table ! i = childPid then table[i := 0]
         else remove_child childPid (i + 1) table)
      else table)"
  by pat_completeness auto
termination
  by (relation "measure (\<lambda>(childPid, i, table). length table - i)") auto

declare remove_child.simps [simp del]

text \<open>
  The handler. Its first argument is the operating system's list of terminated children
  that nobody has waited for yet, in the order \<open>waitpid(-1, &status, WNOHANG)\<close> hands
  them out; with the list empty \<open>waitpid\<close> returns 0 or -1. The result holds the
  children still to be reaped when the handler returns.
\<close>

fun handleSIGCHLD ::
  "(int \<times> wstatus) list \<Rightarrow> shell \<Rightarrow> fault + (shell \<times> (int \<times> wstatus) list)" where
  "handleSIGCHLD [] s = Inr (s, [])"
| "handleSIGCHLD ((childPid, status) # terminated) s =
     (if childPid > 0 then
        (case pushMessageQueue (reap_message childPid status)
                (s\<lparr>children := remove_child childPid 0 (children s)\<rparr>) of
           Inl f \<Rightarrow> Inl f
         | Inr s' \<Rightarrow> handleSIGCHLD terminated s')
      else Inr (s, (childPid, status) # terminated))"

text \<open>The job table with the first slot that holds \<open>p\<close> emptied.\<close>

fun clear_first :: "int \<Rightarrow> int list \<Rightarrow> int list" where
  "clear_first p [] = []"
| "clear_first p (c # cs) = (if c = p then 0 # cs else c # clear_first p cs)"

subsection \<open>One pass of the loop of \<open>main\<close>\<close>

text \<open>
  What one pass does after \<open>getline\<close>: nothing, so that the loop prompts again; or one
  of the built-ins; or \<open>execCmd\<close>, the only function that calls \<open>fork\<close>. \<open>read\<close> is
  the value that \<open>getline\<close> returned, the number of bytes of the line or -1 at the end
  of the input, and \<open>line\<close> is what the buffer holds then: the bytes of the line, or at
  the end of the input whatever was there. The buffer can hold NUL bytes; C reads it as a
  string up to the first of them.
\<close>

datatype outcome =
    NoCommand                    \<comment> \<open>no descriptor: nothing is run\<close>
  | Shutdown "event list"        \<comment> \<open>\<open>exitShell()\<close>, with what it does\<close>
  | ShowStatus                   \<comment> \<open>\<open>status(stat)\<close>\<close>
  | ChangeDir "string option"    \<comment> \<open>\<open>cd(cmdLine->args[1])\<close>\<close>
  | ExecCmd command              \<comment> \<open>\<open>execCmd(cmdLine, stat)\<close>\<close>

definition c_string :: "string \<Rightarrow> string" where
  "c_string buffer = takeWhile (\<lambda>c. c \<noteq> NUL) buffer"

definition main_pass :: "shell \<Rightarrow> int \<Rightarrow> int \<Rightarrow> string \<Rightarrow> fault + outcome" where
  "main_pass s pid read line =
     (if read \<noteq> 0 \<and> read < int LINELENGTH \<and> isValidLine (char_at line 0) then
        (case processInput (fgMode s) pid (c_string line) of
           Inl f \<Rightarrow> Inl f
         | Inr None \<Rightarrow> Inr NoCommand
         | Inr (Some cmdLine) \<Rightarrow>
             (if args cmdLine ! 0 = Some ''exit'' then Inr (Shutdown (exitShell s))
              else if args cmdLine ! 0 = Some ''status'' then Inr ShowStatus
              else if args cmdLine ! 0 = Some ''cd'' then Inr (ChangeDir (args cmdLine ! 1))
              else Inr (ExecCmd cmdLine)))
      else Inr NoCommand)"

text \<open>The descriptor holds its program: \<open>args[0]\<close> is not NULL.\<close>

definition started :: "command \<Rightarrow> bool" where
  "started newCmd = (args newCmd ! 0 \<noteq> None)"

text \<open>
  The last token is \<open>&\<close> and an even number of \<open><\<close> and \<open>>\<close> tokens stand directly
  before it: so the \<open>&\<close> is not the operand of a redirection.
\<close>

definition trailing_ampersand :: "string list \<Rightarrow> bool" where
  "trailing_ampersand ts =
     (ts \<noteq> [] \<and> last ts = ''&'' \<and>
      even (length (takeWhile is_redirect (rev (butlast ts)))))"

text \<open>The messages that wait in the queue, in the order of their slots.\<close>

fun queued_messages :: "string option list \<Rightarrow> string list" where
  "queued_messages [] = []"
| "queued_messages (None # queue) = queued_messages queue"
| "queued_messages (Some message # queue) = message # queued_messages queue"

section \<open>Properties of the expansion step and of the tokenizer\<close>

subsection \<open>Decimal strings\<close>

lemma digit_char_in: "digit_char d \<in> set ''0123456789''"
  unfolding digit_char_def by (rule nth_mem) simp

lemma digit_char_not_dollar: "digit_char d \<noteq> CHR ''$''"
  using digit_char_in [of d] by auto

lemma digits_no_dollar: "CHR ''$'' \<notin> set (digits n)"
proof (induction n rule: digits.induct)
  case (1 n)
  show ?case
  proof (cases "n < 10")
    case True
    then show ?thesis
      using digit_char_not_dollar [of n] by (simp add: digits.simps [of n])
  next
    case False
    with 1 show ?thesis
      using digit_char_not_dollar [of "n mod 10"] by (simp add: digits.simps [of n])
  qed
qed

lemma decimal_no_dollar: "CHR ''$'' \<notin> set (decimal i)"
  by (simp add: decimal_def digits_no_dollar)

subsection \<open>The expansion scan\<close>

lemma append_chars_all: "append_chars newWord cs (length cs) = newWord @ cs"
  by (simp add: append_chars_def NUL_def NEWLINE_def)

lemma append_chars_one: "append_chars newWord [c] (Suc 0) = newWord @ [c]"
  by (simp add: append_chars_def NUL_def NEWLINE_def)

lemma replace_loop_expand:
  "i \<le> length word \<Longrightarrow> replace_loop rs word i acc = acc @ expand rs (drop i word)"
proof (induction rs word i acc rule: replace_loop.induct)
  case (1 rs word i acc)
  show ?case
  proof (cases "i < length word")
    case False
    with "1.prems" show ?thesis
      by (subst replace_loop.simps) simp
  next
    case inside: True
    show ?thesis
    proof (cases "word ! i = CHR ''$'' \<and> char_at word (i + 1) = CHR ''$''")
      case True
      then have next_in: "i + 1 < length word"
        by (auto simp: char_at_def NUL_def split: if_splits)
      then have shape: "drop i word = CHR ''$'' # CHR ''$'' # drop (i + 2) word"
        using True inside
        by (simp add: char_at_def Cons_nth_drop_Suc [symmetric])
      have "replace_loop rs word i acc = replace_loop rs word (i + 2) (acc @ rs)"
        using True inside
        by (subst replace_loop.simps) (simp add: append_chars_all)
      also have "\<dots> = (acc @ rs) @ expand rs (drop (i + 2) word)"
        using "1.IH"(1) [OF inside True] next_in by (simp add: append_chars_all)
      finally show ?thesis
        by (simp add: shape)
    next
      case False
      have step: "replace_loop rs word i acc = replace_loop rs word (i + 1) (acc @ [word ! i])"
        using False inside
        by (subst replace_loop.simps) (auto simp: append_chars_one)
      have ih: "replace_loop rs word (i + 1) (acc @ [word ! i])
                  = (acc @ [word ! i]) @ expand rs (drop (i + 1) word)"
        using "1.IH"(2) [OF inside False] inside by (simp add: append_chars_one)
      have "expand rs (drop i word) = word ! i # expand rs (drop (i + 1) word)"
      proof (cases "i + 1 < length word")
        case True
        then have "drop i word = word ! i # word ! (i + 1) # drop (i + 2) word"
          using inside by (simp add: Cons_nth_drop_Suc [symmetric])
        moreover have "drop (i + 1) word = word ! (i + 1) # drop (i + 2) word"
          using True by (simp add: Cons_nth_drop_Suc [symmetric])
        ultimately show ?thesis
          using False True by (auto simp: char_at_def)
      next
        case False
        then have "drop i word = [word ! i]" and "drop (i + 1) word = []"
          using inside by (simp_all add: Cons_nth_drop_Suc [symmetric])
        then show ?thesis by simp
      qed
      with step ih show ?thesis by simp
    qed
  qed
qed

lemma stringReplace_expand: "stringReplace pid word = expand (decimal pid) word"
  by (simp add: stringReplace_def replace_loop_expand)

lemma expand_marker_free: "\<not> contains_marker w \<Longrightarrow> expand rs w = w"
  by (induction rs w rule: expand.induct) auto

lemma expand_first_marker:
  "\<not> contains_marker (u @ ''$'') \<Longrightarrow> expand rs (u @ ''$$'' @ v) = u @ rs @ expand rs v"
  by (induction rs u rule: expand.induct) auto

lemma contains_marker_skip: "a \<noteq> CHR ''$'' \<Longrightarrow> contains_marker (a # xs) = contains_marker xs"
  by (cases xs) auto

lemma contains_marker_prefix:
  "CHR ''$'' \<notin> set rs \<Longrightarrow> contains_marker (rs @ xs) = contains_marker xs"
  by (induction rs) (auto simp: contains_marker_skip)

lemma expand_keeps_head: "b \<noteq> CHR ''$'' \<Longrightarrow> expand rs (b # cs) = b # expand rs cs"
  by (cases cs) auto

lemma expand_no_marker: "CHR ''$'' \<notin> set rs \<Longrightarrow> \<not> contains_marker (expand rs w)"
proof (induction rs w rule: expand.induct)
  case (1 rs a b cs)
  show ?case
  proof (cases "a = CHR ''$'' \<and> b = CHR ''$''")
    case True
    with 1 show ?thesis by (simp add: contains_marker_prefix)
  next
    case False
    show ?thesis
    proof (cases "a = CHR ''$''")
      case True
      with False have "b \<noteq> CHR ''$''" by simp
      then have "expand rs (a # b # cs) = a # b # expand rs cs"
        using False by (simp add: expand_keeps_head)
      moreover have "\<not> contains_marker (b # expand rs cs)"
        using "1.IH"(2) [OF False "1.prems"] \<open>b \<noteq> CHR ''$''\<close> by (simp add: expand_keeps_head)
      ultimately show ?thesis
        using \<open>b \<noteq> CHR ''$''\<close> by simp
    next
      case a: False
      then show ?thesis
        using "1.IH"(2) [OF False "1.prems"] False by (simp add: contains_marker_skip)
    qed
  qed
qed simp_all

subsection \<open>The loop of \<open>processInput\<close> on the token sequence\<close>

lemma tokens_aux_skip: "tokens_aux [] s = tokens_aux [] (dropWhile is_delim s)"
  by (induction s) auto

lemma tokens_aux_run:
  "tokens_aux cur s =
     (if cur @ takeWhile (\<lambda>c. \<not> is_delim c) s = []
      then tokens_aux [] (dropWhile (\<lambda>c. \<not> is_delim c) s)
      else (cur @ takeWhile (\<lambda>c. \<not> is_delim c) s)
             # tokens_aux [] (drop 1 (dropWhile (\<lambda>c. \<not> is_delim c) s)))"
  by (induction s arbitrary: cur) auto

lemma strtok_r_None:
  assumes "strtok_r s = (None, r)" shows "tokens s = [] \<and> r = []"
proof -
  from assms have d: "dropWhile is_delim s = []" and r: "r = []"
    by (auto simp: strtok_r_def Let_def split: if_splits)
  have "tokens_aux [] s = tokens_aux [] (dropWhile is_delim s)"
    by (rule tokens_aux_skip)
  also have "\<dots> = []"
    unfolding d by simp
  finally show ?thesis
    using r by (simp add: tokens_def)
qed

lemma strtok_r_Some: 
  assumes "strtok_r s = (Some t, r)" shows "tokens s = t # tokens r"
proof -
  let ?s1 = "dropWhile is_delim s"
  from assms have ne: "?s1 \<noteq> []" and t: "t = takeWhile (\<lambda>c. \<not> is_delim c) ?s1"
    and r: "r = drop 1 (dropWhile (\<lambda>c. \<not> is_delim c) ?s1)"
    by (auto simp: strtok_r_def Let_def split: if_splits)
  from ne have "\<not> is_delim (hd ?s1)"
    by (rule hd_dropWhile)
  with ne have "takeWhile (\<lambda>c. \<not> is_delim c) ?s1 \<noteq> []"
    by (cases ?s1) auto
  then have "tokens_aux [] ?s1 = t # tokens_aux [] r"
    unfolding t r by (subst tokens_aux_run) simp
  then show ?thesis
    unfolding tokens_def by (subst tokens_aux_skip) simp
qed

lemma strtok_r_pending: "strtok_r s = (t, r) \<Longrightarrow> pending t r = tokens s"
  by (cases t) (auto simp: pending_def dest: strtok_r_None strtok_r_Some)

lemma token_loop_consume:
  "token_loop pid token saveptr newCmd argPosition =
     consume pid (pending token saveptr) newCmd argPosition"
proof (induction pid token saveptr newCmd argPosition rule: token_loop.induct)
  case (1 pid saveptr newCmd argPosition)
  show ?case by (simp add: token_loop.simps pending_def)
next
  case (2 pid token saveptr newCmd argPosition)
  obtain t1 s1 where st1: "strtok_r saveptr = (t1, s1)" by (cases "strtok_r saveptr")
  obtain t2 s2 where st2: "strtok_r s1 = (t2, s2)" by (cases "strtok_r s1")
  note p1 = strtok_r_pending [OF st1] and p2 = strtok_r_pending [OF st2]
  have "pending (Some token) saveptr = token # tokens saveptr"
    by (simp add: pending_def)
  with p1 have pend: "pending (Some token) saveptr = token # pending t1 s1"
    by simp
  let ?c = "clear_background newCmd"
  consider (first) "args ?c ! 0 = None"
    | (inp) "args ?c ! 0 \<noteq> None" "token = ''<''"
    | (outp) "args ?c ! 0 \<noteq> None" "token \<noteq> ''<''" "token = ''>''"
    | (amp) "args ?c ! 0 \<noteq> None" "token \<noteq> ''<''" "token \<noteq> ''>''" "token = ''&''"
    | (store) "args ?c ! 0 \<noteq> None" "token \<noteq> ''<''" "token \<noteq> ''>''" "token \<noteq> ''&''"
        "argPosition \<le> ARGLENGTH" "argPosition < length (args ?c)"
    | (overrun) "args ?c ! 0 \<noteq> None" "token \<noteq> ''<''" "token \<noteq> ''>''" "token \<noteq> ''&''"
        "argPosition \<le> ARGLENGTH" "\<not> argPosition < length (args ?c)"
    | (dropped) "args ?c ! 0 \<noteq> None" "token \<noteq> ''<''" "token \<noteq> ''>''" "token \<noteq> ''&''"
        "\<not> argPosition \<le> ARGLENGTH"
    by blast
  then show ?case
  proof cases
    case first
    from "2.IH"(1) [OF first st1 [symmetric]] first show ?thesis
      by (simp add: token_loop.simps(2) consume.simps(2) pend st1 del: not_None_eq)
  next
    case inp
    note ih = "2.IH"(2) [OF inp st1 [symmetric] st2 [symmetric]]
    show ?thesis
    proof (cases t1)
      case None
      with st1 have "s1 = []"
        by (auto dest: strtok_r_None)
      with st2 have "t2 = None"
        by (simp add: strtok_r_def)
      moreover from None p1 have "tokens saveptr = []"
        by (simp add: pending_def)
      ultimately show ?thesis
        using None inp st1 st2
        by (simp add: token_loop.simps consume.simps(2) pending_def del: not_None_eq)
    next
      case (Some path)
      with p2 have "pending t1 s1 = path # pending t2 s2"
        by (simp add: pending_def)
      with Some inp st1 st2 ih pend show ?thesis
        by (simp add: token_loop.simps(2) consume.simps(2) del: not_None_eq)
    qed
  next
    case outp
    note ih = "2.IH"(3) [OF outp st1 [symmetric] st2 [symmetric]]
    show ?thesis
    proof (cases t1)
      case None
      with st1 have "s1 = []"
        by (auto dest: strtok_r_None)
      with st2 have "t2 = None"
        by (simp add: strtok_r_def)
      moreover from None p1 have "tokens saveptr = []"
        by (simp add: pending_def)
      ultimately show ?thesis
        using None outp st1 st2
        by (simp add: token_loop.simps consume.simps(2) pending_def del: not_None_eq)
    next
      case (Some path)
      with p2 have "pending t1 s1 = path # pending t2 s2"
        by (simp add: pending_def)
      with Some outp st1 st2 ih pend show ?thesis
        by (simp add: token_loop.simps(2) consume.simps(2) del: not_None_eq)
    qed
  next
    case amp
    from "2.IH"(4) [OF amp st1 [symmetric]] amp pend show ?thesis
      by (simp add: token_loop.simps(2) consume.simps(2) st1 del: not_None_eq)
  next
    case store
    from "2.IH"(5) [OF store st1 [symmetric]] store show ?thesis
      by (simp add: token_loop.simps(2) consume.simps(2) pend st1 del: not_None_eq)
  next
    case overrun
    then show ?thesis
      by (simp add: token_loop.simps(2) consume.simps(2) pend del: not_None_eq)
  next
    case dropped
    from "2.IH"(6) [OF dropped st1 [symmetric]] dropped show ?thesis
      by (simp add: token_loop.simps(2) consume.simps(2) pend st1 del: not_None_eq)
  qed
qed

section \<open>Claims about the expansion step\<close>

text \<open>
  C5. \<open>stringReplace\<close> returns a token that has no \<open>$$\<close> unchanged, and replaces the
  leftmost \<open>$$\<close> of a token by the decimal process id and then goes on in the same way
  with the rest of the token. Applied along the token, the second equation replaces every
  occurrence found by the left-to-right scan, whatever stands next to it.
\<close>

theorem stringReplace_replaces_every_marker:
  "(\<not> contains_marker w \<longrightarrow> stringReplace pid w = w) \<and>
   (\<not> contains_marker (u @ ''$'') \<longrightarrow>
      stringReplace pid (u @ ''$$'' @ v) = u @ decimal pid @ stringReplace pid v)"
proof (intro conjI impI)
  assume "\<not> contains_marker w"
  then show "stringReplace pid w = w"
    by (simp add: stringReplace_expand expand_marker_free)
next
  assume "\<not> contains_marker (u @ ''$'')"
  then show "stringReplace pid (u @ ''$$'' @ v) = u @ decimal pid @ stringReplace pid v"
    unfolding stringReplace_expand by (rule expand_first_marker)
qed

theorem stringReplace_replaces_every_marker_witness:
  "\<not> contains_marker ''ls'' \<and> stringReplace 12345 ''ls'' = ''ls'' \<and>
   \<not> contains_marker (''file'' @ ''$'') \<and>
   stringReplace 12345 (''file'' @ ''$$'' @ ''log'') = ''file12345log''"
proof -
  have d: "decimal 12345 = ''12345''"
    by (simp add: decimal_def digits.simps digit_char_def)
  have "\<not> contains_marker ''ls''" and "\<not> contains_marker (''file'' @ ''$'')"
    and "\<not> contains_marker ''log''"
    by simp_all
  then show ?thesis
    using stringReplace_replaces_every_marker [where w = "''ls''" and pid = 12345]
      stringReplace_replaces_every_marker [where w = "''log''" and pid = 12345
        and u = "''file''" and v = "''log''"]
    by (simp add: d)
qed

text \<open>
  C10. The result of \<open>stringReplace\<close> never contains \<open>$$\<close>, and applying
  \<open>stringReplace\<close> to its own result changes nothing.
\<close>

theorem stringReplace_result_marker_free:
  "\<not> contains_marker (stringReplace pid w) \<and>
   stringReplace pid (stringReplace pid w) = stringReplace pid w"
proof -
  have "\<not> contains_marker (expand (decimal pid) w)"
    by (rule expand_no_marker) (rule decimal_no_dollar)
  then show ?thesis
    by (simp add: stringReplace_expand expand_marker_free)
qed

section \<open>Properties of the descriptor that \<open>processInput\<close> builds\<close>

lemma parse_line_tokens:
  "parse_line pid line =
     (case tokens line of
        [] \<Rightarrow> Inr None
      | token # rest \<Rightarrow>
          (case consume pid (token # rest) new_command 1 of
             Inl f \<Rightarrow> Inl f
           | Inr newCmd \<Rightarrow> Inr (Some newCmd)))"
proof -
  obtain t r where st: "strtok_r line = (t, r)" by (cases "strtok_r line")
  show ?thesis
  proof (cases t)
    case None
    with st show ?thesis
      by (auto simp: parse_line_def dest: strtok_r_None)
  next
    case (Some token)
    with st have "tokens line = token # tokens r"
      by (auto dest: strtok_r_Some)
    with st Some show ?thesis
      by (simp add: parse_line_def token_loop_consume pending_def)
  qed
qed

lemma clear_background_simps [simp]:
  "args (clear_background c) = args c"
  "inputFile (clear_background c) = inputFile c"
  "outputFile (clear_background c) = outputFile c"
  "isBackground (clear_background c) = False"
  by (simp_all add: clear_background_def)

lemma started_clear [simp]: "started (clear_background c) = started c"
  by (simp add: started_def)

lemma started_fields [simp]:
  "started (c\<lparr>inputFile := x\<rparr>) = started c"
  "started (c\<lparr>outputFile := y\<rparr>) = started c"
  "started (c\<lparr>isBackground := b\<rparr>) = started c"
  by (simp_all add: started_def)

lemma consume_first:
  "consume pid (token # rest) new_command 1 =
     consume pid rest (new_command\<lparr>args := (args new_command)[0 := Some (stringReplace pid token)]\<rparr>) 1"
  by (simp add: consume.simps(2) new_command_def clear_background_def ARGLENGTH_def)

lemma started_first:
  "started (new_command\<lparr>args := (args new_command)[0 := Some v]\<rparr>)"
  by (simp add: new_command_def started_def ARGLENGTH_def)

lemma trailing_single: "trailing_ampersand [t] = (t = ''&'')"
  by (simp add: trailing_ampersand_def)

lemma run_snoc: "\<not> P t \<Longrightarrow> takeWhile P (xs @ [t]) = takeWhile P xs"
  by (induction xs) auto

lemma run_snoc_pair:
  "P t \<Longrightarrow> even (length (takeWhile P (xs @ [path, t]))) = even (length (takeWhile P xs))"
  by (induction xs) auto

lemma trailing_skip:
  "rest \<noteq> [] \<Longrightarrow> \<not> is_redirect t \<Longrightarrow> trailing_ampersand (t # rest) = trailing_ampersand rest"
  by (simp add: trailing_ampersand_def run_snoc)

lemma trailing_operand:
  "rest \<noteq> [] \<Longrightarrow> is_redirect t \<Longrightarrow>
     trailing_ampersand (t # path # rest) = trailing_ampersand rest"
  using run_snoc_pair [of is_redirect t "rev (butlast rest)" path]
  by (simp add: trailing_ampersand_def)

lemma trailing_operand_last: "is_redirect t \<Longrightarrow> \<not> trailing_ampersand [t, path]"
  by (simp add: trailing_ampersand_def)

lemma consume_background:
  "started c \<Longrightarrow> consume pid ts c n = Inr c' \<Longrightarrow>
     isBackground c' = (if ts = [] then isBackground c else trailing_ampersand ts)"
proof (induction pid ts c n rule: consume.induct)
  case (1 pid newCmd argPosition)
  then show ?case by simp
next
  case (2 pid token rest newCmd argPosition)
  let ?c = "clear_background newCmd"
  from "2.prems"(1) have st: "args ?c ! 0 \<noteq> None" and st': "args newCmd ! 0 \<noteq> None"
    by (simp_all add: started_def)
  consider (inp) "token = ''<''"
    | (outp) "token \<noteq> ''<''" "token = ''>''"
    | (amp) "token \<noteq> ''<''" "token \<noteq> ''>''" "token = ''&''"
    | (store) "token \<noteq> ''<''" "token \<noteq> ''>''" "token \<noteq> ''&''"
        "argPosition \<le> ARGLENGTH" "argPosition < length (args ?c)"
    | (overrun) "token \<noteq> ''<''" "token \<noteq> ''>''" "token \<noteq> ''&''"
        "argPosition \<le> ARGLENGTH" "\<not> argPosition < length (args ?c)"
    | (dropped) "token \<noteq> ''<''" "token \<noteq> ''>''" "token \<noteq> ''&''"
        "\<not> argPosition \<le> ARGLENGTH"
    by blast
  then show ?case
  proof cases
    case inp
    show ?thesis
    proof (cases rest)
      case Nil
      with inp "2.prems" show ?thesis
        by (auto simp: trailing_single st' consume.simps(2))
    next
      case (Cons path rest')
      have "started (?c\<lparr>inputFile := Some (stringReplace pid path)\<rparr>)"
        using "2.prems"(1) by simp
      moreover have "consume pid rest' (?c\<lparr>inputFile := Some (stringReplace pid path)\<rparr>) argPosition = Inr c'"
        using "2.prems"(2) inp Cons by (simp add: st' consume.simps(2))
      ultimately have "isBackground c' = (if rest' = [] then False else trailing_ampersand rest')"
        using "2.IH"(2) [OF st inp Cons] by simp
      then show ?thesis
        using inp Cons
        by (cases "rest' = []") (simp_all add: trailing_operand trailing_operand_last is_redirect_def)
    qed
  next
    case outp
    show ?thesis
    proof (cases rest)
      case Nil
      with outp "2.prems" show ?thesis
        by (auto simp: trailing_single st' consume.simps(2))
    next
      case (Cons path rest')
      have "started (?c\<lparr>outputFile := Some (stringReplace pid path)\<rparr>)"
        using "2.prems"(1) by simp
      moreover have "consume pid rest' (?c\<lparr>outputFile := Some (stringReplace pid path)\<rparr>) argPosition = Inr c'"
        using "2.prems"(2) outp Cons by (simp add: st' consume.simps(2))
      ultimately have "isBackground c' = (if rest' = [] then False else trailing_ampersand rest')"
        using "2.IH"(3) [OF st outp Cons] by simp
      then show ?thesis
        using outp Cons
        by (cases "rest' = []") (simp_all add: trailing_operand trailing_operand_last is_redirect_def)
    qed
  next
    case amp
    have "started (?c\<lparr>isBackground := True\<rparr>)"
      using "2.prems"(1) by simp
    moreover have "consume pid rest (?c\<lparr>isBackground := True\<rparr>) argPosition = Inr c'"
      using "2.prems"(2) amp by (simp add: st' consume.simps(2))
    ultimately have "isBackground c' = (if rest = [] then True else trailing_ampersand rest)"
      using "2.IH"(4) [OF st amp] by simp
    then show ?thesis
      using amp
      by (cases "rest = []") (simp_all add: trailing_single trailing_skip is_redirect_def)
  next
    case store
    let ?c1 = "?c\<lparr>args := (args ?c)[argPosition := Some (stringReplace pid token)]\<rparr>"
    have "started ?c1"
      using "2.prems"(1) store by (cases argPosition) (auto simp: started_def)
    moreover have "consume pid rest ?c1 (argPosition + 1) = Inr c'"
      using "2.prems"(2) store by (simp add: st' consume.simps(2))
    ultimately have "isBackground c' = (if rest = [] then False else trailing_ampersand rest)"
      using "2.IH"(5) [OF st store] by simp
    then show ?thesis
      using store
      by (cases "rest = []") (simp_all add: trailing_single trailing_skip is_redirect_def)
  next
    case overrun
    with "2.prems"(2) show ?thesis
      by (simp add: st' consume.simps(2))
  next
    case dropped
    have "consume pid rest ?c argPosition = Inr c'"
      using "2.prems"(2) dropped by (simp add: st' consume.simps(2))
    then have "isBackground c' = (if rest = [] then False else trailing_ampersand rest)"
      using "2.IH"(6) [OF st dropped] "2.prems"(1) by simp
    then show ?thesis
      using dropped
      by (cases "rest = []") (simp_all add: trailing_single trailing_skip is_redirect_def)
  qed
qed


lemma default_paths_background [simp]: "isBackground (default_paths c) = isBackground c"
  by (simp add: default_paths_def Let_def)

lemma processInput_Some:
  assumes "processInput fg pid line = Inr (Some cmd)"
  obtains parsed where "parse_line pid line = Inr (Some parsed)"
    and "cmd = default_paths (foreground_only fg parsed)"
  using assms by (auto simp: processInput_def split: sum.splits option.splits)

lemma parse_line_Some:
  assumes "parse_line pid line = Inr (Some parsed)"
  obtains token rest where "tokens line = token # rest"
    and "consume pid rest
           (new_command\<lparr>args := (args new_command)[0 := Some (stringReplace pid token)]\<rparr>) 1
         = Inr parsed"
proof (cases "tokens line")
  case Nil
  with assms show ?thesis
    by (simp add: parse_line_tokens)
next
  case (Cons token rest)
  with assms have "consume pid (token # rest) new_command 1 = Inr parsed"
    by (simp add: parse_line_tokens split: sum.splits)
  then show ?thesis
    using Cons that by (simp only: consume_first)
qed



text \<open>The facts that evaluate \<open>processInput\<close> on a given line.\<close>

lemmas run_parse = processInput_def parse_line_tokens tokens_def is_delim_def NEWLINE_def
  consume.simps(2) new_command_def ARGLENGTH_def clear_background_def stringReplace_expand
  foreground_only_def default_paths_def null_device_def

lemmas run_decimal = decimal_def digits.simps digit_char_def

section \<open>Claims about the command descriptor\<close>

text \<open>
  C4, as the code has it. With foreground-only mode off, the descriptor's background flag
  is true exactly when the line has at least two tokens, its last token is \<open>&\<close>, and the
  \<open><\<close> and \<open>>\<close> tokens that stand directly before that \<open>&\<close> (the program token at
  index 0 not counted) are even in number, so that the \<open>&\<close> is neither the program nor the
  operand of a redirection. In particular an \<open>&\<close> that is followed by further tokens
  leaves the flag false.
\<close>

theorem background_iff_trailing_operator_ampersand:
  assumes "processInput False pid line = Inr (Some cmd)"
  shows "isBackground cmd \<longleftrightarrow>
           (2 \<le> length (tokens line) \<and> last (tokens line) = ''&'' \<and>
            even (length (takeWhile is_redirect (rev (butlast (tl (tokens line)))))))"
proof -
  from assms obtain parsed where p: "parse_line pid line = Inr (Some parsed)"
    and cmd: "cmd = default_paths (foreground_only False parsed)"
    by (rule processInput_Some)
  from p obtain token rest where ts: "tokens line = token # rest"
    and c: "consume pid rest
              (new_command\<lparr>args := (args new_command)[0 := Some (stringReplace pid token)]\<rparr>) 1
            = Inr parsed"
    by (rule parse_line_Some)
  have "isBackground parsed = (if rest = [] then False else trailing_ampersand rest)"
    using consume_background [OF started_first c] by (simp add: new_command_def)
  moreover have "isBackground cmd = isBackground parsed"
    by (simp add: cmd foreground_only_def)
  ultimately show ?thesis
    by (cases "rest = []") (auto simp: ts trailing_ampersand_def Suc_le_eq)
qed

theorem background_iff_trailing_operator_ampersand_witness:
  "processInput False 4242 ''sleep 5 &\<newline>''
     = Inr (Some \<lparr>args = (replicate 513 None)[0 := Some ''sleep'', 1 := Some ''5''],
                   inputFile = Some ''/dev/null'', outputFile = Some ''/dev/null'',
                   isBackground = True\<rparr>) \<and>
   2 \<le> length (tokens ''sleep 5 &\<newline>'') \<and>
   last (tokens ''sleep 5 &\<newline>'') = ''&'' \<and>
   even (length (takeWhile is_redirect (rev (butlast (tl (tokens ''sleep 5 &\<newline>''))))))"
proof -
  have run: "processInput False 4242 ''sleep 5 &\<newline>''
     = Inr (Some \<lparr>args = (replicate 513 None)[0 := Some ''sleep'', 1 := Some ''5''],
                   inputFile = Some ''/dev/null'', outputFile = Some ''/dev/null'',
                   isBackground = True\<rparr>)"
    by (simp add: run_parse)
  from background_iff_trailing_operator_ampersand [OF run] run show ?thesis
    by simp
qed

text \<open>
  The claim as the specification states it fails: the last token is \<open>&\<close> and the flag is
  false, when the \<open>&\<close> is the only token (it is the program) and when it follows \<open><\<close>
  (it is the input path).
\<close>

theorem last_token_ampersand_not_background:
  "last (tokens ''&\<newline>'') = ''&'' \<and>
   processInput False 4242 ''&\<newline>''
     = Inr (Some \<lparr>args = (replicate 513 None)[0 := Some ''&''], inputFile = None,
                   outputFile = None, isBackground = False\<rparr>) \<and>
   last (tokens ''ls < &\<newline>'') = ''&'' \<and>
   processInput False 4242 ''ls < &\<newline>''
     = Inr (Some \<lparr>args = (replicate 513 None)[0 := Some ''ls''], inputFile = Some ''&'',
                   outputFile = None, isBackground = False\<rparr>)"
  by (simp add: run_parse)

text \<open>
  C7. When \<open>fgMode\<close> is set where \<open>processInput\<close> reads it, the descriptor it returns
  has its background flag false, whatever the tokens are.
\<close>

theorem foreground_only_clears_background:
  assumes "processInput True pid line = Inr (Some cmd)"
  shows "\<not> isBackground cmd"
proof -
  from assms obtain parsed where "cmd = default_paths (foreground_only True parsed)"
    by (rule processInput_Some)
  then show ?thesis
    by (simp add: foreground_only_def)
qed

theorem foreground_only_clears_background_witness:
  "last (tokens ''sleep 5 &\<newline>'') = ''&'' \<and>
   processInput True 4242 ''sleep 5 &\<newline>''
     = Inr (Some \<lparr>args = (replicate 513 None)[0 := Some ''sleep'', 1 := Some ''5''],
                   inputFile = None, outputFile = None, isBackground = False\<rparr>) \<and>
   \<not> isBackground \<lparr>args = (replicate 513 None)[0 := Some ''sleep'', 1 := Some ''5''],
                     inputFile = None, outputFile = None, isBackground = False\<rparr>"
proof -
  have run: "processInput True 4242 ''sleep 5 &\<newline>''
     = Inr (Some \<lparr>args = (replicate 513 None)[0 := Some ''sleep'', 1 := Some ''5''],
                   inputFile = None, outputFile = None, isBackground = False\<rparr>)"
    by (simp add: run_parse)
  from foreground_only_clears_background [OF run] run show ?thesis
    by (simp add: tokens_def is_delim_def NEWLINE_def)
qed



section \<open>Properties of lines with no token or with too many\<close>

subsection \<open>Lines that give no descriptor\<close>

lemma tokens_only_delimiters:
  assumes "\<forall>c\<in>set s. is_delim c"
  shows "tokens s = []"
proof -
  from assms have "dropWhile is_delim s = []"
    by simp
  then have "strtok_r s = (None, [])"
    by (simp add: strtok_r_def)
  then show ?thesis
    by (auto dest: strtok_r_None)
qed

lemma processInput_no_tokens: "tokens line = [] \<Longrightarrow> processInput fg pid line = Inr None"
  by (simp add: processInput_def parse_line_tokens)

lemma c_string_subset: "set (c_string buffer) \<subseteq> set buffer"
  unfolding c_string_def by (auto dest: set_takeWhileD)

lemma c_string_no_NUL: "NUL \<notin> set buffer \<Longrightarrow> c_string buffer = buffer"
  unfolding c_string_def by (auto simp: takeWhile_eq_all_conv)

subsection \<open>More arguments than the descriptor holds\<close>

lemma tokens_aux_arguments:
  "cur \<noteq> [] \<Longrightarrow>
     tokens_aux cur (concat (replicate k '' b'') @ [NEWLINE]) = cur # replicate k ''b''"
proof (induction k arbitrary: cur)
  case 0
  then show ?case
    by (simp add: is_delim_def)
next
  case (Suc k)
  have "tokens_aux ''b'' (concat (replicate k '' b'') @ [NEWLINE]) = ''b'' # replicate k ''b''"
    by (rule Suc.IH) simp
  with Suc.prems show ?case
    by (simp add: is_delim_def NEWLINE_def)
qed

lemma tokens_arguments:
  "tokens (''a'' @ concat (replicate k '' b'') @ [NEWLINE]) = ''a'' # replicate k ''b''"
  using tokens_aux_arguments [of "''a''" k]
  by (simp add: tokens_def is_delim_def NEWLINE_def)

lemma consume_overrun:
  "args c ! 0 \<noteq> None \<Longrightarrow> length (args c) = ARGLENGTH \<Longrightarrow> n \<le> ARGLENGTH \<Longrightarrow>
     n + k = ARGLENGTH + 1 \<Longrightarrow>
     consume pid (replicate k ''b'') c n = Inl (ArgsOverrun ARGLENGTH)"
proof (induction k arbitrary: c n)
  case 0
  then show ?case by simp
next
  case (Suc k)
  show ?case
  proof (cases "n < ARGLENGTH")
    case False
    with Suc.prems show ?thesis
      by (simp add: consume.simps(2) del: not_None_eq)
  next
    case True
    let ?c = "(clear_background c)\<lparr>args := (args (clear_background c))[n := Some (stringReplace pid ''b'')]\<rparr>"
    have "args ?c ! 0 \<noteq> None"
      using Suc.prems(1,2) True by (cases n) auto
    moreover have "length (args ?c) = ARGLENGTH"
      using Suc.prems(2) by simp
    ultimately have "consume pid (replicate k ''b'') ?c (n + 1) = Inl (ArgsOverrun ARGLENGTH)"
      using Suc.prems(4) True by (intro Suc.IH) simp_all
    with Suc.prems True show ?thesis
      by (simp add: consume.simps(2) del: not_None_eq)
  qed
qed

lemma length_arguments: "length (concat (replicate k '' b'')) = 2 * k"
  by (induction k) simp_all

lemma set_arguments: "set (concat (replicate k '' b'')) \<subseteq> {CHR '' '', CHR ''b''}"
  by (induction k) auto

section \<open>Claims about the limits of the arrays\<close>

text \<open>
  C1. The claim fails on the code. The guard of the argument store is
  \<open>argPosition <= ARGLENGTH\<close> with \<open>ARGLENGTH\<close> 513, so the 513th argument after the
  program is not dropped: it is stored to \<open>args[513]\<close>, one slot past the array. The line
  is the program \<open>a\<close> followed by 513 arguments \<open>b\<close>; it has 1028 bytes, which is what
  \<open>getline\<close> returns for it, so \<open>main\<close> passes it to \<open>processInput\<close>.
\<close>

theorem argument_513_stored_past_the_array:
  "processInput fg pid (''a'' @ concat (replicate 513 '' b'') @ [NEWLINE]) = Inl (ArgsOverrun 513) \<and>
   main_pass s pid 1028 (''a'' @ concat (replicate 513 '' b'') @ [NEWLINE])
     = Inl (ArgsOverrun 513)"
proof -
  let ?line = "''a'' @ concat (replicate 513 '' b'') @ [NEWLINE]"
  let ?c = "new_command\<lparr>args := (args new_command)[0 := Some (stringReplace pid ''a'')]\<rparr>"
  have tk: "tokens ?line = ''a'' # replicate 513 ''b''"
    by (rule tokens_arguments)
  have "consume pid (replicate 513 ''b'') ?c 1 = Inl (ArgsOverrun ARGLENGTH)"
    by (rule consume_overrun) (simp_all add: new_command_def ARGLENGTH_def)
  then have "consume pid (''a'' # replicate 513 ''b'') new_command 1 = Inl (ArgsOverrun 513)"
    by (simp only: consume_first ARGLENGTH_def)
  then have run: "processInput fg pid ?line = Inl (ArgsOverrun 513)" for fg
    by (simp only: processInput_def parse_line_tokens tk list.case sum.case)
  have "NUL \<notin> set ?line"
    using set_arguments [of 513] by (auto simp: NUL_def NEWLINE_def)
  then have "c_string ?line = ?line"
    by (rule c_string_no_NUL)
  moreover have "length ?line = 1028"
    by (simp add: length_arguments)
  ultimately have "main_pass s pid 1028 ?line = Inl (ArgsOverrun 513)"
    using run [of "fgMode s"]
    by (simp add: main_pass_def LINELENGTH_def isValidLine_def char_at_def NEWLINE_def)
  with run show ?thesis
    by simp
qed

lemma handleSIGCHLD_overrun:
  assumes "\<forall>z\<in>set terminated. 0 < fst z"
    and "queuePosition s \<le> length (msgQueue s)"
    and "length (msgQueue s) < queuePosition s + length terminated"
  shows "handleSIGCHLD terminated s = Inl (QueueOverrun (length (msgQueue s)))"
  using assms
proof (induction terminated arbitrary: s)
  case Nil
  then show ?case by simp
next
  case (Cons z zs)
  obtain p st where z: "z = (p, st)" by (cases z)
  let ?s1 = "s\<lparr>children := remove_child p 0 (children s)\<rparr>"
  show ?case
  proof (cases "queuePosition s < length (msgQueue s)")
    case False
    with Cons.prems z show ?thesis
      by (simp add: pushMessageQueue_def)
  next
    case True
    let ?s2 = "?s1\<lparr>msgQueue := (msgQueue ?s1)[queuePosition ?s1 := Some (reap_message p st)],
                     queuePosition := queuePosition ?s1 + 1\<rparr>"
    have "handleSIGCHLD zs ?s2 = Inl (QueueOverrun (length (msgQueue ?s2)))"
      using Cons.prems True by (intro Cons.IH) simp_all
    with Cons.prems True z show ?thesis
      by (simp add: pushMessageQueue_def)
  qed
qed

text \<open>
  C2. The claim fails on the code. \<open>pushMessageQueue\<close> has no test of \<open>queuePosition\<close>:
  with all 50 slots taken it stores to \<open>msgQueue[50]\<close>, past the array, and discards
  nothing. One run of the handler reaches this from the initial state when 51 children
  have terminated since the queue was last emptied.
\<close>

theorem push_on_full_queue_overruns:
  "pushMessageQueue line (s\<lparr>msgQueue := replicate 50 (Some m), queuePosition := 50\<rparr>)
     = Inl (QueueOverrun 50) \<and>
   handleSIGCHLD (map (\<lambda>p. (p, Exited 0)) [1..51]) shell_init = Inl (QueueOverrun 50)"
proof -
  have "handleSIGCHLD (map (\<lambda>p. (p, Exited 0)) [1..51]) shell_init
          = Inl (QueueOverrun (length (msgQueue shell_init)))"
    by (rule handleSIGCHLD_overrun) (auto simp: shell_init_def)
  then show ?thesis
    by (simp add: pushMessageQueue_def shell_init_def)
qed

section \<open>Claims about the loop of \<open>main\<close>\<close>

text \<open>
  C3, as the code has it. \<open>isValidLine\<close> looks at the first byte of the line, not at its
  first byte that is not white space. A line whose first byte is \<open>#\<close> or newline, or that
  holds only spaces and newlines, gives no descriptor and runs nothing: the loop prompts
  again. This holds whatever \<open>getline\<close> has returned for the line.
\<close>

theorem comment_and_blank_lines_run_nothing:
  assumes "char_at line 0 = CHR ''#'' \<or> char_at line 0 = NEWLINE \<or>
           (line \<noteq> [] \<and> (\<forall>c\<in>set line. is_delim c))"
  shows "main_pass s pid read line = Inr NoCommand"
proof -
  consider "char_at line 0 = CHR ''#''" | "char_at line 0 = NEWLINE"
    | "\<forall>c\<in>set line. is_delim c"
    using assms by blast
  then show ?thesis
  proof cases
    case 3
    with c_string_subset [of line] have "\<forall>c\<in>set (c_string line). is_delim c"
      by blast
    then have "processInput (fgMode s) pid (c_string line) = Inr None"
      by (intro processInput_no_tokens tokens_only_delimiters)
    then show ?thesis
      by (simp add: main_pass_def)
  qed (simp_all add: main_pass_def isValidLine_def)
qed

theorem comment_and_blank_lines_run_nothing_witness:
  "main_pass shell_init 4242 7 ''# ls &\<newline>'' = Inr NoCommand \<and>
   main_pass shell_init 4242 1 [NEWLINE] = Inr NoCommand \<and>
   main_pass shell_init 4242 3 ''  \<newline>'' = Inr NoCommand"
  using comment_and_blank_lines_run_nothing [of "''# ls &\<newline>''" shell_init 4242 7]
    comment_and_blank_lines_run_nothing [of "[NEWLINE]" shell_init 4242 1]
    comment_and_blank_lines_run_nothing [of "''  \<newline>''" shell_init 4242 3]
  by (simp add: char_at_def is_delim_def NEWLINE_def)

text \<open>
  The claim as the specification states it fails on a line whose \<open>#\<close> comes after a
  space: the line, of 3 bytes, gives a descriptor with the program \<open>#\<close>, and \<open>main\<close>
  calls \<open>execCmd\<close> on it, which forks.
\<close>

theorem comment_after_space_is_executed:
  "main_pass shell_init 4242 3 '' #\<newline>''
     = Inr (ExecCmd \<lparr>args = (replicate 513 None)[0 := Some ''#''], inputFile = None,
                     outputFile = None, isBackground = False\<rparr>)"
  by (simp add: main_pass_def LINELENGTH_def isValidLine_def char_at_def c_string_def NUL_def
        shell_init_def run_parse)

section \<open>Claims about the job table and the notification queue\<close>

lemma remove_child_clear_first:
  "i \<le> length table \<Longrightarrow>
     remove_child p i table = take i table @ clear_first p (drop i table)"
proof (induction p i table rule: remove_child.induct)
  case (1 p i table)
  show ?case
  proof (cases "i < length table")
    case False
    with "1.prems" show ?thesis
      by (subst remove_child.simps) simp
  next
    case True
    then have shape: "drop i table = table ! i # drop (Suc i) table"
      by (simp add: Cons_nth_drop_Suc)
    show ?thesis
    proof (cases "table ! i = p")
      case found: True
      with True show ?thesis
        by (subst remove_child.simps) (simp add: shape upd_conv_take_nth_drop)
    next
      case False
      with True "1.IH" [OF True False] show ?thesis
        by (subst remove_child.simps) (simp add: shape take_Suc_conv_app_nth)
    qed
  qed
qed

lemma handleSIGCHLD_all:
  assumes "\<forall>z\<in>set terminated. 0 < fst z"
    and "queuePosition s + length terminated \<le> length (msgQueue s)"
  shows "handleSIGCHLD terminated s =
           Inr (s\<lparr>msgQueue :=
                    take (queuePosition s) (msgQueue s)
                      @ map (\<lambda>(p, status). Some (reap_message p status)) terminated
                      @ drop (queuePosition s + length terminated) (msgQueue s),
                  queuePosition := queuePosition s + length terminated,
                  children := fold clear_first (map fst terminated) (children s)\<rparr>, [])"
  using assms
proof (induction terminated arbitrary: s)
  case Nil
  then show ?case by simp
next
  case (Cons z zs)
  obtain p st where z: "z = (p, st)" by (cases z)
  let ?s1 = "s\<lparr>children := remove_child p 0 (children s)\<rparr>"
  let ?s2 = "?s1\<lparr>msgQueue := (msgQueue ?s1)[queuePosition ?s1 := Some (reap_message p st)],
                   queuePosition := queuePosition ?s1 + 1\<rparr>"
  from Cons.prems have room: "queuePosition s < length (msgQueue s)"
    by simp
  have step: "handleSIGCHLD (z # zs) s = handleSIGCHLD zs ?s2"
    using Cons.prems room z by (simp add: pushMessageQueue_def)
  have "handleSIGCHLD zs ?s2 =
          Inr (?s2\<lparr>msgQueue :=
                    take (queuePosition ?s2) (msgQueue ?s2)
                      @ map (\<lambda>(p, status). Some (reap_message p status)) zs
                      @ drop (queuePosition ?s2 + length zs) (msgQueue ?s2),
                  queuePosition := queuePosition ?s2 + length zs,
                  children := fold clear_first (map fst zs) (children ?s2)\<rparr>, [])"
    using Cons.prems by (intro Cons.IH) simp_all
  moreover have "take (queuePosition ?s2) (msgQueue ?s2)
                   = take (queuePosition s) (msgQueue s) @ [Some (reap_message p st)]"
    using room by (simp add: take_Suc_conv_app_nth)
  moreover have "drop (queuePosition ?s2 + length zs) (msgQueue ?s2)
                   = drop (queuePosition s + length (z # zs)) (msgQueue s)"
    by simp
  moreover have "children ?s2 = clear_first p (children s)"
    by (simp add: remove_child_clear_first)
  ultimately show ?case
    unfolding step by (simp add: z)
qed

lemma clear_first_absent: "p \<notin> set table \<Longrightarrow> clear_first p table = table"
  by (induction table) auto

text \<open>
  C6, as the code has it. The handler is run with the children that have terminated and
  are not yet reaped, all with a positive process id, and the queue has a free slot for
  the message of each of them. It then reaps all of them: none is left when it returns.
  For each child, in the order of reaping, it stores one message in the next free slot of
  the queue and empties the first slot of the job table that holds the child's process
  id; a process id that is not in the table changes nothing there. The message is the
  line \<open>background pid P is done: exit value N\<close> for a child that exited with code \<open>N\<close>,
  and \<open>background pid P is done: terminated by signal N\<close> for a child that signal \<open>N\<close>
  terminated, each ended by a newline.
\<close>

theorem handleSIGCHLD_reaps_every_terminated_child:
  assumes "\<forall>z\<in>set terminated. 0 < fst z"
    and "queuePosition s + length terminated \<le> length (msgQueue s)"
  shows "handleSIGCHLD terminated s =
           Inr (s\<lparr>msgQueue :=
                    take (queuePosition s) (msgQueue s)
                      @ map (\<lambda>(p, status). Some (reap_message p status)) terminated
                      @ drop (queuePosition s + length terminated) (msgQueue s),
                  queuePosition := queuePosition s + length terminated,
                  children := fold clear_first (map fst terminated) (children s)\<rparr>, []) \<and>
         reap_message P (Exited N)
           = ''background pid '' @ decimal P @ '' is done: exit value '' @ decimal N
               @ ''\<newline>'' \<and>
         reap_message P (Signaled N)
           = ''background pid '' @ decimal P @ '' is done: terminated by signal '' @ decimal N
               @ ''\<newline>'' \<and>
         (P \<notin> set table \<longrightarrow> clear_first P table = table) \<and>
         (P \<in> set table \<longrightarrow>
            (\<exists>i < length table. table ! i = P \<and> (\<forall>j < i. table ! j \<noteq> P) \<and>
               clear_first P table = table[i := 0]))"
proof -
  have "\<exists>i < length table. table ! i = P \<and> (\<forall>j < i. table ! j \<noteq> P) \<and>
          clear_first P table = table[i := 0]" if "P \<in> set table"
    using that
  proof (induction table)
    case Nil
    then show ?case by simp
  next
    case (Cons c cs)
    show ?case
    proof (cases "c = P")
      case True
      then have "(c # cs) ! 0 = P \<and> (\<forall>j < 0. (c # cs) ! j \<noteq> P) \<and>
                   clear_first P (c # cs) = (c # cs)[0 := 0]"
        by simp
      then show ?thesis by blast
    next
      case False
      with Cons obtain i where i: "i < length cs" "cs ! i = P" "\<forall>j < i. cs ! j \<noteq> P"
        "clear_first P cs = cs[i := 0]"
        by auto
      have "\<forall>j < Suc i. (c # cs) ! j \<noteq> P"
        using False i(3) by (auto simp: less_Suc_eq_0_disj)
      with False i have "Suc i < length (c # cs) \<and> (c # cs) ! Suc i = P \<and>
                   (\<forall>j < Suc i. (c # cs) ! j \<noteq> P) \<and>
                   clear_first P (c # cs) = (c # cs)[Suc i := 0]"
        by simp
      then show ?thesis by blast
    qed
  qed
  then show ?thesis
    using handleSIGCHLD_all [OF assms]
    by (simp add: reap_message_def NEWLINE_def clear_first_absent)
qed

theorem handleSIGCHLD_reaps_every_terminated_child_witness:
  "handleSIGCHLD [(102, Signaled 15), (101, Exited 0), (77, Exited 1)]
     \<lparr>msgQueue = replicate 50 None, queuePosition = 0,
      children = 101 # 0 # 0 # 102 # replicate 196 0, fgMode = False\<rparr>
   = Inr (\<lparr>msgQueue =
             [Some ''background pid 102 is done: terminated by signal 15\<newline>'',
              Some ''background pid 101 is done: exit value 0\<newline>'',
              Some ''background pid 77 is done: exit value 1\<newline>''] @ replicate 47 None,
           queuePosition = 3, children = 0 # 0 # 0 # 0 # replicate 196 0, fgMode = False\<rparr>,
          [])"
proof -
  let ?zs = "[(102::int, Signaled 15), (101, Exited 0), (77, Exited 1)]"
  let ?s = "\<lparr>msgQueue = replicate 50 (None::string option), queuePosition = 0,
             children = 101 # 0 # 0 # 102 # replicate 196 (0::int), fgMode = False\<rparr>"
  have pos: "\<forall>z\<in>set ?zs. 0 < fst z"
    by simp
  have room: "queuePosition ?s + length ?zs \<le> length (msgQueue ?s)"
    by simp
  from handleSIGCHLD_reaps_every_terminated_child [OF pos room] show ?thesis
    by (simp add: reap_message_def run_decimal NEWLINE_def clear_first_absent)
qed

text \<open>
  The claim as the specification states it, for every run of the handler, fails when
  more children have terminated than the queue has free slots: from the initial state
  with 51 terminated children the handler stores 50 messages and then stores past the
  array, as in C2; the 51st message is not appended.
\<close>

theorem handleSIGCHLD_51_children_overrun:
  "handleSIGCHLD (zip [1..51] (replicate 51 (Exited 0))) shell_init = Inl (QueueOverrun 50)"
proof -
  have "handleSIGCHLD (zip [1..51] (replicate 51 (Exited 0))) shell_init
          = Inl (QueueOverrun (length (msgQueue shell_init)))"
  proof (rule handleSIGCHLD_overrun)
    show "\<forall>z\<in>set (zip [1..51] (replicate 51 (Exited 0))). 0 < fst z"
      by (auto dest!: set_zip_leftD)
  qed (simp_all add: shell_init_def)
  then show ?thesis
    by (simp add: shell_init_def)
qed

subsection \<open>Shutdown\<close>

lemma clear_loop_out:
  "i \<le> length queue \<Longrightarrow>
     snd (clear_loop i queue out)
       = out @ map (\<lambda>m. Write (m @ [NUL])) (queued_messages (drop i queue))"
proof (induction i queue out rule: clear_loop.induct)
  case (1 i queue out)
  show ?case
  proof (cases "i < length queue")
    case False
    with "1.prems" show ?thesis
      by (subst clear_loop.simps) simp
  next
    case True
    then have shape: "drop i queue = queue ! i # drop (Suc i) queue"
      by (simp add: Cons_nth_drop_Suc)
    show ?thesis
    proof (cases "queue ! i")
      case None
      with True "1.IH"(1) [OF True None] show ?thesis
        by (subst clear_loop.simps) (simp add: shape)
    next
      case (Some message)
      with True "1.IH"(2) [OF True Some] show ?thesis
        by (subst clear_loop.simps) (simp add: shape)
    qed
  qed
qed

lemma kill_loop_out:
  "i \<le> length table \<Longrightarrow>
     snd (kill_loop i table out)
       = out @ map (\<lambda>p. Kill p SIGTERM) (filter (\<lambda>p. p \<noteq> 0) (drop i table))"
proof (induction i table out rule: kill_loop.induct)
  case (1 i table out)
  show ?case
  proof (cases "i < length table")
    case False
    with "1.prems" show ?thesis
      by (subst kill_loop.simps) simp
  next
    case True
    then have shape: "drop i table = table ! i # drop (Suc i) table"
      by (simp add: Cons_nth_drop_Suc)
    show ?thesis
    proof (cases "table ! i \<noteq> 0")
      case occupied: True
      with True "1.IH"(1) [OF True occupied] show ?thesis
        by (subst kill_loop.simps) (simp add: shape)
    next
      case False
      with True "1.IH"(2) [OF True False] show ?thesis
        by (subst kill_loop.simps) (simp add: shape)
    qed
  qed
qed

text \<open>
  C9. \<open>exitShell\<close> first writes every message that waits in the queue, in the order of
  the slots (with its terminating NUL byte, as \<open>clearMessageQueue\<close> does), then sends
  \<open>SIGTERM\<close> to every process id in a slot of the job table, in the order of the slots,
  and then ends the shell with \<open>_exit(3)\<close>; it does nothing else, so it waits for no
  child. The line \<open>exit\<close>, of 5 bytes with its newline, makes \<open>main\<close> call it.
\<close>

theorem exitShell_drains_kills_and_exits_3:
  "exitShell s =
     map (\<lambda>m. Write (m @ [NUL])) (queued_messages (msgQueue s))
       @ map (\<lambda>p. Kill p SIGTERM) (filter (\<lambda>p. p \<noteq> 0) (children s))
       @ [Exit 3] \<and>
   main_pass s pid 5 ''exit\<newline>'' = Inr (Shutdown (exitShell s))"
proof -
  obtain queue out1 where c: "clear_loop 0 (msgQueue s) [] = (queue, out1)"
    by (cases "clear_loop 0 (msgQueue s) []")
  obtain table out2 where k: "kill_loop 0 (children s) [] = (table, out2)"
    by (cases "kill_loop 0 (children s) []")
  have "out1 = map (\<lambda>m. Write (m @ [NUL])) (queued_messages (msgQueue s))"
    using clear_loop_out [of 0 "msgQueue s" "[]"] c by simp
  moreover have "out2 = map (\<lambda>p. Kill p SIGTERM) (filter (\<lambda>p. p \<noteq> 0) (children s))"
    using kill_loop_out [of 0 "children s" "[]"] k by simp
  ultimately have "exitShell s =
     map (\<lambda>m. Write (m @ [NUL])) (queued_messages (msgQueue s))
       @ map (\<lambda>p. Kill p SIGTERM) (filter (\<lambda>p. p \<noteq> 0) (children s))
       @ [Exit 3]"
    by (simp add: exitShell_def clearMessageQueue_def c k)
  moreover have "main_pass s pid 5 ''exit\<newline>'' = Inr (Shutdown (exitShell s))"
    by (simp add: main_pass_def LINELENGTH_def isValidLine_def char_at_def c_string_def NUL_def
          run_parse)
  ultimately show ?thesis
    by simp
qed

end
